theory Spec2Isabelle
  imports Main "HOL-Library.Word" "HOL-Library.Sublist"
begin

section \<open>Strings of the source language\<close>

text \<open>
  A JavaScript string is a sequence of UTF-16 code units. \<open>String.prototype.length\<close>
  counts code units, and the regular expression class \<open>\s\<close> as well as
  \<open>String.prototype.trim\<close> work on single code units (every white space character of
  ECMAScript lies in the basic plane).
\<close>

type_synonym jschar = "16 word"
type_synonym jsstring = "jschar list"

definition TAB :: jschar where "TAB = 0x09"
definition LF :: jschar where "LF = 0x0A"
definition CR :: jschar where "CR = 0x0D"
definition SP :: jschar where "SP = 0x20"

text \<open>An ASCII literal as a JavaScript string.\<close>

definition js :: "string \<Rightarrow> jsstring" where
  "js s = map (\<lambda>c. of_nat (of_char c)) s"

text \<open>
  The characters matched by \<open>\s\<close> and removed by \<open>trim\<close>: WhiteSpace (TAB, VT, FF,
  ZWNBSP and the Unicode category Zs) and LineTerminator (LF, CR, LS, PS).
\<close>

definition is_ws :: "jschar \<Rightarrow> bool" where
  "is_ws c \<longleftrightarrow>
     c = 0x09 \<or> c = 0x0A \<or> c = 0x0B \<or> c = 0x0C \<or> c = 0x0D \<or> c = 0x20 \<or>
     c = 0xA0 \<or> c = 0x1680 \<or> (0x2000 \<le> c \<and> c \<le> 0x200A) \<or>
     c = 0x2028 \<or> c = 0x2029 \<or> c = 0x202F \<or> c = 0x205F \<or> c = 0x3000 \<or>
     c = 0xFEFF"

text \<open>\<open>s.trim()\<close>: white space removed at both ends.\<close>

definition trim :: "jsstring \<Rightarrow> jsstring" where
  "trim s = rev (dropWhile is_ws (rev (dropWhile is_ws s)))"

text \<open>
  \<open>content.split('\n')\<close>: the pieces between the line feeds; the empty string gives one
  empty piece, and a text that ends in a line feed gives a last, empty piece.
\<close>

fun split_lines :: "jsstring \<Rightarrow> jsstring list" where
  "split_lines [] = [[]]"
| "split_lines (c # cs) =
     (if c = LF then [] # split_lines cs
      else (case split_lines cs of
              [] \<Rightarrow> [[c]]
            | l # ls \<Rightarrow> (c # l) # ls))"

section \<open>The outline parser\<close>

subsection \<open>parseLine\<close>

record parsed =
  level :: nat
  content :: jsstring

text \<open>
  \<open>parseLine\<close> returns \<open>null\<close> (here \<open>None\<close>) when the trimmed line is the empty string.
  \<open>line.match(/^(\s*)/)\<close> always matches, and its group is the longest prefix of
  white space, so no \<open>null\<close> is dereferenced. \<open>leadingSpaces\<close> is an integer below
  \<open>2^53\<close>, hence \<open>Math.floor(leadingSpaces / 4)\<close> is the integer quotient.
\<close>

definition parseLine :: "jsstring \<Rightarrow> parsed option" where
  "parseLine line =
     (if trim line = [] then None
      else
        let leadingSpaces = length (takeWhile is_ws line);
            level = leadingSpaces div 4;
            content = trim line
        in Some \<lparr>level = level, content = content\<rparr>)"

subsection \<open>buildTree\<close>

text \<open>
  The tree is built by mutation: the array \<open>node.children\<close> of a new node is shared
  between the node, which is pushed onto its parent's array, and the frame pushed on the
  stack, through which later lines extend it. The model keeps the arrays in a store:
  an address is an index into the list of all arrays allocated so far, a node holds
  the address of its \<open>children\<close> array, and so does a stack frame.
\<close>

type_synonym addr = nat

record node =
  name :: jsstring
  children :: addr

type_synonym store = "node list list"

text \<open>A stack frame \<open>{ level, children }\<close>; the level of the sentinel is \<open>-1\<close>.\<close>

type_synonym frame = "int \<times> addr"

text \<open>The stack with its top (the last element of the JavaScript array) at the head.\<close>

record build_state =
  heap :: store
  stack :: "frame list"

datatype js_error = TypeError

text \<open>
  \<open>while (stack.length > 1 && stack[stack.length - 1].level >= level) stack.pop();\<close>
\<close>

fun pop_frames :: "frame list \<Rightarrow> nat \<Rightarrow> frame list" where
  "pop_frames (f # g # st) lv =
     (if fst f \<ge> int lv then pop_frames (g # st) lv else f # g # st)"
| "pop_frames st lv = st"

text \<open>
  The body of the loop for a line that \<open>parseLine\<close> accepts: the node and its empty
  \<open>children\<close> array are created, frames are popped, the node is pushed onto the array
  of the frame on top, and a frame for the node is pushed.
  \<open>stack[stack.length - 1].children\<close> on an empty stack would read a property of
  \<open>undefined\<close>, which throws a TypeError.
\<close>

definition attach :: "build_state \<Rightarrow> parsed \<Rightarrow> js_error + build_state" where
  "attach s parsed =
     (let a = length (heap s);
          h = heap s @ [[]];
          nd = \<lparr>name = content parsed, children = a\<rparr>;
          st = pop_frames (stack s) (level parsed)
      in (case st of
            [] \<Rightarrow> Inl TypeError
          | (_, parent) # _ \<Rightarrow>
              Inr \<lparr>heap = h[parent := h ! parent @ [nd]],
                   stack = (int (level parsed), a) # st\<rparr>))"

text \<open>One iteration of the loop over the lines; a blank line is skipped.\<close>

definition add_line :: "build_state \<Rightarrow> jsstring \<Rightarrow> js_error + build_state" where
  "add_line s line =
     (case parseLine line of
        None \<Rightarrow> Inr s
      | Some parsed \<Rightarrow> attach s parsed)"

fun add_lines :: "build_state \<Rightarrow> jsstring list \<Rightarrow> js_error + build_state" where
  "add_lines s [] = Inr s"
| "add_lines s (line # lines) =
     (case add_line s line of
        Inl e \<Rightarrow> Inl e
      | Inr s' \<Rightarrow> add_lines s' lines)"

text \<open>\<open>root = []\<close> is the array at address 0; the sentinel frame refers to it.\<close>

definition init_state :: build_state where
  "init_state = \<lparr>heap = [[]], stack = [(-1, 0)]\<rparr>"

text \<open>
  The value returned, \<open>root\<close>, read as a tree: the nodes of an array, each with the
  nodes of its \<open>children\<close> array below it. An array allocated while the array at \<open>a\<close>
  exists has an address above \<open>a\<close>, which is what makes the reading terminate; the
  test \<open>a < children nd\<close> holds for every node of a store that \<open>buildTree\<close> builds
  (lemma \<open>add_recs_init\<close>).
\<close>

datatype folder = Folder jsstring "folder list"

function reify :: "store \<Rightarrow> addr \<Rightarrow> folder list" where
  "reify h a =
     (if a < length h
      then map (\<lambda>nd. Folder (name nd)
                  (if a < children nd then reify h (children nd) else [])) (h ! a)
      else [])"
  by pat_completeness auto
termination
  by (relation "measure (\<lambda>(h, a). length h - a)") auto

declare reify.simps [simp del]

definition buildTree :: "jsstring list \<Rightarrow> js_error + folder list" where
  "buildTree lines =
     (case add_lines init_state lines of
        Inl e \<Rightarrow> Inl e
      | Inr s \<Rightarrow> Inr (reify (heap s) 0))"

section \<open>The tree materializer\<close>

text \<open>
  \<open>createFolders\<close> reaches the outside world through \<open>path.join\<close>,
  \<open>fs.existsSync\<close>, \<open>fs.mkdirSync\<close> and \<open>console.log\<close>. The three functions of
  Node.js are parameters of the model: \<open>'fs\<close> is the state of the file system,
  \<open>existsSync\<close> reads it and never throws, \<open>mkdirSync\<close> (called with
  \<open>{ recursive: true }\<close>) returns the new state together with the exception it throws,
  if any.
\<close>

record ('fs, 'e) fs_api =
  join :: "jsstring \<Rightarrow> jsstring \<Rightarrow> jsstring"
  existsSync :: "'fs \<Rightarrow> jsstring \<Rightarrow> bool"
  mkdirSync :: "'fs \<Rightarrow> jsstring \<Rightarrow> 'e option \<times> 'fs"

text \<open>
  A line written by \<open>console.log\<close>: \<open>Created: path\<close> or
  \<open>Exists:  path\<close>.
\<close>

datatype report = Created jsstring | Exists jsstring

text \<open>
  The world \<open>createFolders\<close> acts on: the file system and the lines printed so
  far.
\<close>

record 'fs world =
  fs :: 'fs
  console :: "report list"

text \<open>
  The body of the loop for one node, up to the recursive call. The first component of
  the result is the exception thrown, if any: \<open>console.log\<close> comes after
  \<open>mkdirSync\<close>, so nothing is printed when \<open>mkdirSync\<close> throws.
\<close>

definition visit :: "('fs, 'e) fs_api \<Rightarrow> jsstring \<Rightarrow> 'fs world \<Rightarrow> 'e option \<times> 'fs world" where
  "visit api folderPath w =
     (if \<not> existsSync api (fs w) folderPath
      then (case mkdirSync api (fs w) folderPath of
              (Some e, fs') \<Rightarrow> (Some e, w\<lparr>fs := fs'\<rparr>)
            | (None, fs') \<Rightarrow>
                (None, \<lparr>fs = fs', console = console w @ [Created folderPath]\<rparr>))
      else (None, w\<lparr>console := console w @ [Exists folderPath]\<rparr>))"

text \<open>
  \<open>createFolders(nodes, parentPath)\<close>. Nothing catches an exception, so the first
  one ends the loop and every enclosing call, with the world as it is at that moment.
\<close>

fun createFolders ::
  "('fs, 'e) fs_api \<Rightarrow> folder list \<Rightarrow> jsstring \<Rightarrow> 'fs world \<Rightarrow> 'e option \<times> 'fs world" where
  "createFolders api [] parentPath w = (None, w)"
| "createFolders api (Folder nm kids # rest) parentPath w =
     (let folderPath = join api parentPath nm in
      case visit api folderPath w of
        (Some e, w1) \<Rightarrow> (Some e, w1)
      | (None, w1) \<Rightarrow>
          (case (if kids \<noteq> [] then createFolders api kids folderPath w1 else (None, w1)) of
             (Some e, w2) \<Rightarrow> (Some e, w2)
           | (None, w2) \<Rightarrow> createFolders api rest parentPath w2))"

section \<open>Notions used to state the properties\<close>

text \<open>A line that is empty or holds white space only.\<close>

definition blank :: "jsstring \<Rightarrow> bool" where
  "blank line = list_all is_ws line"

text \<open>The number of leading space characters (U+0020) of a line.\<close>

definition leadingSpaceCount :: "jsstring \<Rightarrow> nat" where
  "leadingSpaceCount line = length (takeWhile (\<lambda>c. c = SP) line)"

text \<open>
  The Line Records of the input: what \<open>parseLine\<close> returns for the lines it
  accepts, in order.
\<close>

definition records :: "jsstring list \<Rightarrow> parsed list" where
  "records lines = List.map_filter parseLine lines"

text \<open>
  The names of the nodes of a forest in depth-first pre-order, siblings from left to right.
\<close>

fun preorder :: "folder list \<Rightarrow> jsstring list" where
  "preorder [] = []"
| "preorder (Folder n ks # rest) = n # preorder ks @ preorder rest"

text \<open>
  For every node of a forest, in pre-order, the pre-order position of its parent;
  \<open>None\<close> for a root. \<open>parents_of par i forest\<close> lists them for a forest whose roots
  have the parent \<open>par\<close> and whose first node has the position \<open>i\<close>.
\<close>

fun parents_of :: "nat option \<Rightarrow> nat \<Rightarrow> folder list \<Rightarrow> nat option list" where
  "parents_of par i [] = []"
| "parents_of par i (Folder n ks # rest) =
     par # parents_of (Some i) (Suc i) ks @ parents_of par (Suc i + length (preorder ks)) rest"

definition parents :: "folder list \<Rightarrow> nat option list" where
  "parents forest = parents_of None 0 forest"

text \<open>
  The nearest preceding record with strictly smaller depth: the first index below \<open>i\<close>,
  searching downwards from \<open>i - 1\<close>, whose depth is below the depth at \<open>i\<close>.
\<close>

definition nearest_shallower :: "nat list \<Rightarrow> nat \<Rightarrow> nat option" where
  "nearest_shallower ds i = List.find (\<lambda>j. ds ! j < ds ! i) (rev [0..<i])"

text \<open>The text with every carriage return removed.\<close>

definition strip_cr :: "jsstring \<Rightarrow> jsstring" where
  "strip_cr inp = filter (\<lambda>c. c \<noteq> CR) inp"

text \<open>
  Every carriage return of the text is directly followed by a line feed or ends the text.
\<close>

fun cr_at_line_end :: "jsstring \<Rightarrow> bool" where
  "cr_at_line_end (c # d # cs) = ((c = CR \<longrightarrow> d = LF) \<and> cr_at_line_end (d # cs))"
| "cr_at_line_end cs = True"

text \<open>Every line feed of the text is directly preceded by a carriage return.\<close>

fun crlf_from :: "bool \<Rightarrow> jsstring \<Rightarrow> bool" where
  "crlf_from after_cr [] = True"
| "crlf_from after_cr (c # cs) = ((c = LF \<longrightarrow> after_cr) \<and> crlf_from (c = CR) cs)"

definition crlf_endings :: "jsstring \<Rightarrow> bool" where
  "crlf_endings inp = crlf_from False inp"

text \<open>
  The paths of the nodes of a forest under a parent path, in depth-first pre-order.
\<close>

fun paths :: "('fs, 'e) fs_api \<Rightarrow> folder list \<Rightarrow> jsstring \<Rightarrow> jsstring list" where
  "paths api [] parentPath = []"
| "paths api (Folder nm kids # rest) parentPath =
     join api parentPath nm # paths api kids (join api parentPath nm) @ paths api rest parentPath"

text \<open>The path a report is about.\<close>

fun report_path :: "report \<Rightarrow> jsstring" where
  "report_path (Created p) = p"
| "report_path (Exists p) = p"

text \<open>
  The file system after the creations that a list of reports announces, in order.
\<close>

fun mkdirs :: "('fs, 'e) fs_api \<Rightarrow> 'fs \<Rightarrow> report list \<Rightarrow> 'fs" where
  "mkdirs api f [] = f"
| "mkdirs api f (Created p # reps) = mkdirs api (snd (mkdirSync api f p)) reps"
| "mkdirs api f (Exists p # reps) = mkdirs api f reps"

text \<open>
  A list of reports tells what happened, starting from the file system \<open>f\<close>: a path
  reported as \<open>Exists\<close> existed, a path reported as \<open>Created\<close> did not exist and
  \<open>mkdirSync\<close> created it without throwing.
\<close>

fun faithful :: "('fs, 'e) fs_api \<Rightarrow> 'fs \<Rightarrow> report list \<Rightarrow> bool" where
  "faithful api f [] = True"
| "faithful api f (Created p # reps) =
     (\<not> existsSync api f p \<and> fst (mkdirSync api f p) = None \<and>
      faithful api (snd (mkdirSync api f p)) reps)"
| "faithful api f (Exists p # reps) = (existsSync api f p \<and> faithful api f reps)"

text \<open>
  Two assumptions on the file system, which hold when no other process changes it:
  a path that \<open>mkdirSync\<close> has created exists afterwards, and \<open>mkdirSync\<close>, also
  when it throws, removes nothing.
\<close>

definition mkdir_creates :: "('fs, 'e) fs_api \<Rightarrow> bool" where
  "mkdir_creates api \<longleftrightarrow>
     (\<forall>f p f'. mkdirSync api f p = (None, f') \<longrightarrow> existsSync api f' p)"

definition mkdir_keeps :: "('fs, 'e) fs_api \<Rightarrow> bool" where
  "mkdir_keeps api \<longleftrightarrow>
     (\<forall>f p r f' q. mkdirSync api f p = (r, f') \<longrightarrow> existsSync api f q \<longrightarrow> existsSync api f' q)"

section \<open>Auxiliary definitions\<close>

text \<open>
  The loop of \<open>buildTree\<close> over the Line Records instead of the lines.
\<close>

fun add_recs :: "build_state \<Rightarrow> parsed list \<Rightarrow> js_error + build_state" where
  "add_recs s [] = Inr s"
| "add_recs s (r # rs) =
     (case attach s r of
        Inl e \<Rightarrow> Inl e
      | Inr s' \<Rightarrow> add_recs s' rs)"

text \<open>
  The forest of a list of records, by recursion on the outline: the first record is a
  root, the records after it that are strictly deeper, up to the first that is not, form
  its subtree, and the remaining records form the other roots.
\<close>

function forest_of :: "parsed list \<Rightarrow> folder list" where
  "forest_of [] = []"
| "forest_of (r # rs) =
     Folder (content r) (forest_of (takeWhile (\<lambda>x. level r < level x) rs))
       # forest_of (dropWhile (\<lambda>x. level r < level x) rs)"
  by pat_completeness auto
termination
  by (relation "measure length")
     (auto simp: less_Suc_eq_le length_dropWhile_le intro: le_trans [OF length_takeWhile_le])

text \<open>
  Every node of the store refers to an array allocated after the array that holds it.
\<close>

definition wf_heap :: "store \<Rightarrow> bool" where
  "wf_heap h \<longleftrightarrow> (\<forall>a < length h. \<forall>nd \<in> set (h ! a). a < children nd \<and> children nd < length h)"

text \<open>The index of the last element of a list that is below \<open>d\<close>.\<close>

definition last_below :: "nat \<Rightarrow> nat list \<Rightarrow> nat option" where
  "last_below d ds = List.find (\<lambda>j. ds ! j < d) (rev [0..<length ds])"

text \<open>
  The body of the loop of \<open>createFolders\<close> run over a list of paths.
\<close>

fun visit_all :: "('fs, 'e) fs_api \<Rightarrow> jsstring list \<Rightarrow> 'fs world \<Rightarrow> 'e option \<times> 'fs world" where
  "visit_all api [] w = (None, w)"
| "visit_all api (q # qs) w =
     (case visit api q w of
        (Some e, w1) \<Rightarrow> (Some e, w1)
      | (None, w1) \<Rightarrow> visit_all api qs w1)"

subsection \<open>A file system for the examples\<close>

text \<open>
  The state is the list of the paths that exist, \<open>join\<close> puts a slash between its
  arguments, and \<open>mkdirSync\<close> throws on the paths of a given list.
\<close>

datatype errno = EACCES

definition mem_api :: "jsstring list \<Rightarrow> (jsstring list, errno) fs_api" where
  "mem_api denied =
     \<lparr>join = (\<lambda>p n. p @ 0x2F # n),
      existsSync = (\<lambda>f p. p \<in> set f),
      mkdirSync = (\<lambda>f p. if p \<in> set denied then (Some EACCES, f) else (None, p # f))\<rparr>"

section \<open>Lemmas\<close>

subsection \<open>White space, trim and parseLine\<close>

lemma is_ws_simps [simp]: "is_ws TAB" "is_ws SP" "is_ws CR" "is_ws LF"
  by (simp_all add: is_ws_def TAB_def SP_def CR_def LF_def)

lemma CR_neq_LF [simp]: "CR \<noteq> LF" "LF \<noteq> CR"
  by (simp_all add: CR_def LF_def)

lemma dropWhile_all: "\<forall>x \<in> set xs. P x \<Longrightarrow> dropWhile P xs = []"
  by simp

lemma dropWhile_all_Nil: "\<forall>x \<in> set (dropWhile P xs). P x \<Longrightarrow> dropWhile P xs = []"
  using hd_dropWhile [of P xs] hd_in_set [of "dropWhile P xs"] by blast

lemma dropWhile_ws_Nil_iff: "dropWhile is_ws line = [] \<longleftrightarrow> blank line"
  by (simp add: blank_def list_all_iff)

lemma trim_empty_iff: "trim line = [] \<longleftrightarrow> blank line"
proof
  assume "trim line = []"
  then have "\<forall>x \<in> set (dropWhile is_ws line). is_ws x"
    by (simp add: trim_def)
  then have "dropWhile is_ws line = []" by (rule dropWhile_all_Nil)
  then show "blank line" by (simp only: dropWhile_ws_Nil_iff)
next
  assume "blank line"
  then have "dropWhile is_ws line = []" by (simp only: dropWhile_ws_Nil_iff)
  then show "trim line = []" by (simp add: trim_def del: dropWhile_eq_Nil_conv)
qed

lemma parseLine_None_iff: "parseLine line = None \<longleftrightarrow> blank line"
  by (simp add: parseLine_def trim_empty_iff Let_def)

lemma content_parseLine: "parseLine line = Some r \<Longrightarrow> content r = trim line"
  by (auto simp: parseLine_def Let_def split: if_splits)

lemma contents_records: "map content (records lines) = map trim (filter (\<lambda>l. \<not> blank l) lines)"
  by (induction lines)
     (auto simp: records_def map_filter_simps parseLine_None_iff [symmetric] content_parseLine
           split: option.splits)

lemma trim_indent:
  assumes "list_all is_ws ind" and "\<not> is_ws c"
  shows "trim (ind @ c # rest) = trim (c # rest)"
  using assms by (simp add: trim_def dropWhile_append2 list_all_iff)

lemma parseLine_indent:
  assumes "list_all is_ws ind" and "\<not> is_ws c"
  shows "parseLine (ind @ c # rest) =
         Some \<lparr>level = length ind div 4, content = trim (c # rest)\<rparr>"
proof -
  have "\<not> blank (ind @ c # rest)" using assms(2) by (simp add: blank_def)
  then have "trim (ind @ c # rest) \<noteq> []" by (simp only: trim_empty_iff not_False_eq_True)
  moreover have "takeWhile is_ws (ind @ c # rest) = ind"
    using assms by (simp add: takeWhile_append2 list_all_iff)
  ultimately show ?thesis
    using trim_indent [OF assms] by (simp add: parseLine_def Let_def)
qed

lemma trim_snoc_ws: "is_ws x \<Longrightarrow> trim (b @ [x]) = trim b"
  by (simp add: trim_def dropWhile_append dropWhile_all)

lemma parseLine_snoc_ws:
  assumes "is_ws x"
  shows "parseLine (b @ [x]) = parseLine b"
proof (cases "blank b")
  case True
  then have "blank (b @ [x])" using assms by (simp add: blank_def)
  then show ?thesis using True by (simp only: parseLine_None_iff [symmetric])
next
  case False
  then have "takeWhile is_ws (b @ [x]) = takeWhile is_ws b"
    by (auto simp: takeWhile_append blank_def list_all_iff)
  then show ?thesis using assms by (simp add: parseLine_def trim_snoc_ws)
qed

lemma set_trim: "set (trim l) \<subseteq> set l"
  unfolding trim_def by (auto dest!: set_dropWhileD)

subsection \<open>Lines and carriage returns\<close>

lemma split_lines_not_Nil: "split_lines inp \<noteq> []"
  by (induction inp) (auto split: list.splits)

lemma split_lines_strip_cr:
  "split_lines (strip_cr inp) = map strip_cr (split_lines inp)"
proof (induction inp)
  case Nil
  show ?case by (simp add: strip_cr_def)
next
  case (Cons c cs)
  then show ?case
    using split_lines_not_Nil [of cs]
    by (cases "split_lines cs") (auto simp: strip_cr_def)
qed

lemma hd_split_lines_Nil:
  "hd (split_lines cs) = [] \<longleftrightarrow> cs = [] \<or> hd cs = LF"
  by (cases cs) (auto split: list.splits)

lemma cr_at_line_end_tail: "cr_at_line_end (c # cs) \<Longrightarrow> cr_at_line_end cs"
  by (cases cs) simp_all

lemma cr_at_line_end_head: "cr_at_line_end (CR # cs) \<Longrightarrow> cs = [] \<or> hd cs = LF"
  by (cases cs) simp_all

lemma lines_cr_last:
  "cr_at_line_end inp \<Longrightarrow> \<forall>l \<in> set (split_lines inp). CR \<notin> set (butlast l)"
proof (induction inp)
  case Nil
  show ?case by simp
next
  case (Cons c cs)
  have IH: "\<forall>l \<in> set (split_lines cs). CR \<notin> set (butlast l)"
    using Cons.IH cr_at_line_end_tail [OF Cons.prems] by simp
  show ?case
  proof (cases "c = LF")
    case True
    then show ?thesis using IH by simp
  next
    case False
    obtain l ls where sp: "split_lines cs = l # ls"
      using split_lines_not_Nil [of cs] by (cases "split_lines cs") auto
    have "l \<noteq> [] \<Longrightarrow> c \<noteq> CR"
      using cr_at_line_end_head [of cs] Cons.prems hd_split_lines_Nil [of cs] sp by auto
    then have "CR \<notin> set (butlast (c # l))" using IH sp by auto
    then show ?thesis using False IH sp by simp
  qed
qed

lemma parseLine_strip_cr:
  assumes "CR \<notin> set (butlast l)"
  shows "parseLine (strip_cr l) = parseLine l"
proof (cases l rule: rev_cases)
  case Nil
  then show ?thesis by (simp add: strip_cr_def)
next
  case (snoc b x)
  then have b: "filter (\<lambda>c. c \<noteq> CR) b = b" using assms by (auto simp: filter_id_conv)
  show ?thesis
  proof (cases "x = CR")
    case True
    then show ?thesis using snoc b parseLine_snoc_ws [of CR b] by (simp add: strip_cr_def)
  next
    case False
    then show ?thesis using snoc b by (simp add: strip_cr_def)
  qed
qed

lemma records_strip_cr:
  assumes "cr_at_line_end inp"
  shows "records (split_lines (strip_cr inp)) = records (split_lines inp)"
proof -
  have "\<forall>l \<in> set ls. CR \<notin> set (butlast l) \<Longrightarrow> records (map strip_cr ls) = records ls" for ls
    by (induction ls)
       (auto simp: records_def map_filter_simps parseLine_strip_cr split: option.splits)
  then show ?thesis
    using lines_cr_last [OF assms] by (simp add: split_lines_strip_cr)
qed

lemma set_split_lines: "l \<in> set (split_lines inp) \<Longrightarrow> set l \<subseteq> set inp"
proof (induction inp arbitrary: l)
  case Nil
  then show ?case by simp
next
  case (Cons c cs)
  obtain l' ls where sp: "split_lines cs = l' # ls"
    using split_lines_not_Nil [of cs] by (cases "split_lines cs") auto
  have "set l' \<subseteq> set cs" and "\<forall>k \<in> set ls. set k \<subseteq> set cs"
    using Cons.IH sp by simp_all
  then show ?case
    using Cons.prems sp by (auto split: if_splits)
qed

lemma names_without_cr:
  "n \<in> set (map content (records (split_lines (strip_cr inp)))) \<Longrightarrow> CR \<notin> set n"
proof -
  assume "n \<in> set (map content (records (split_lines (strip_cr inp))))"
  then obtain l where l: "l \<in> set (split_lines (strip_cr inp))" and n: "n = trim l"
    by (auto simp: contents_records)
  have "set n \<subseteq> set (strip_cr inp)"
    using set_trim [of l] set_split_lines [OF l] n by auto
  then show ?thesis by (auto simp: strip_cr_def)
qed

subsection \<open>The store built by buildTree\<close>

lemma add_lines_records: "add_lines s lines = add_recs s (records lines)"
  by (induction lines arbitrary: s)
     (auto simp: records_def add_line_def map_filter_simps split: option.splits sum.splits)

lemma add_recs_append:
  "add_recs s (xs @ ys) = (case add_recs s xs of Inl e \<Rightarrow> Inl e | Inr s' \<Rightarrow> add_recs s' ys)"
  by (induction xs arbitrary: s) (auto split: sum.splits)

lemma pop_junk:
  "\<forall>f \<in> set junk. int lv \<le> fst f \<Longrightarrow> st0 = [] \<or> l0 < int lv \<Longrightarrow>
   pop_frames (junk @ (l0, a0) # st0) lv = (l0, a0) # st0"
proof (induction junk)
  case Nil
  then show ?case by (cases st0) auto
next
  case (Cons f junk)
  then show ?case by (cases "junk @ (l0, a0) # st0") auto
qed

lemma reify_agree:
  "wf_heap h \<Longrightarrow> a < length h \<Longrightarrow> length h \<le> length h' \<Longrightarrow>
   \<forall>b. a \<le> b \<and> b < length h \<longrightarrow> h' ! b = h ! b \<Longrightarrow> reify h' a = reify h a"
proof (induction h a rule: reify.induct)
  case (1 h a)
  have same: "h' ! a = h ! a" using 1(3,5) by simp
  have "\<And>nd. nd \<in> set (h ! a) \<Longrightarrow> a < children nd \<Longrightarrow> reify h' (children nd) = reify h (children nd)"
  proof -
    fix nd assume nd: "nd \<in> set (h ! a)" and lt: "a < children nd"
    have "children nd < length h" using 1(2,3) nd by (auto simp: wf_heap_def)
    then show "reify h' (children nd) = reify h (children nd)"
      using 1(1) [OF 1(3) nd lt 1(2) _ 1(4)] 1(5) lt by auto
  qed
  then show ?case
    using 1(3,4) same by (subst reify.simps, subst (2) reify.simps) (auto)
qed

lemma attach_step:
  assumes "\<forall>f \<in> set junk. int (level r) \<le> fst f" and "st0 = [] \<or> l0 < int (level r)"
  shows "attach \<lparr>heap = h, stack = junk @ (l0, a0) # st0\<rparr> r =
         Inr \<lparr>heap = (h @ [[]])[a0 := (h @ [[]]) ! a0 @ [\<lparr>name = content r, children = length h\<rparr>]],
              stack = (int (level r), length h) # (l0, a0) # st0\<rparr>"
  using assms by (simp add: attach_def pop_junk Let_def)

lemma wf_heap_push:
  assumes "wf_heap h" and "a0 < length h"
  shows "wf_heap ((h @ [[]])[a0 := (h @ [[]]) ! a0 @ [\<lparr>name = c, children = length h\<rparr>]])"
  unfolding wf_heap_def
proof (intro allI impI ballI)
  fix a nd
  let ?h1 = "(h @ [[]])[a0 := (h @ [[]]) ! a0 @ [\<lparr>name = c, children = length h\<rparr>]]"
  assume a: "a < length ?h1" and nd: "nd \<in> set (?h1 ! a)"
  consider "a = a0" | "a = length h" | "a \<noteq> a0" "a < length h"
    using a by fastforce
  then show "a < children nd \<and> children nd < length ?h1"
  proof cases
    case 1
    then have "nd \<in> set (h ! a0) \<or> nd = \<lparr>name = c, children = length h\<rparr>"
      using nd assms(2) by (auto simp: nth_append)
    then show ?thesis using assms 1 by (fastforce simp: wf_heap_def less_Suc_eq)
  next
    case 2
    then show ?thesis using nd assms(2) by (auto simp: nth_append)
  next
    case 3
    then have "nd \<in> set (h ! a)" using nd by (auto simp: nth_append)
    then show ?thesis using assms(1) 3 by (fastforce simp: wf_heap_def less_Suc_eq)
  qed
qed

lemma add_recs_segment:
  assumes "wf_heap h" and "a0 < length h"
    and "st0 = [] \<or> (\<forall>r \<in> set rs. l0 < int (level r))"
    and "rs \<noteq> [] \<longrightarrow> (\<forall>f \<in> set junk. int (level (hd rs)) \<le> fst f)"
  shows "\<exists>h' st' ns.
           add_recs \<lparr>heap = h, stack = junk @ (l0, a0) # st0\<rparr> rs =
             Inr \<lparr>heap = h', stack = st' @ (l0, a0) # st0\<rparr> \<and>
           wf_heap h' \<and> length h' = length h + length rs \<and>
           (\<forall>b < length h. b \<noteq> a0 \<longrightarrow> h' ! b = h ! b) \<and>
           h' ! a0 = h ! a0 @ ns \<and> (\<forall>n \<in> set ns. length h \<le> children n) \<and>
           map (\<lambda>n. Folder (name n) (reify h' (children n))) ns = forest_of rs \<and>
           (\<forall>f \<in> set st'. f \<in> set junk \<or> (\<exists>r \<in> set rs. fst f = int (level r)))"
  using assms
proof (induction rs arbitrary: h a0 l0 st0 junk rule: forest_of.induct)
  case 1
  then show ?case
    by (intro exI [of _ h] exI [of _ junk] exI [of _ "[]"]) simp
next
  case (2 r rest)
  define kids where "kids = takeWhile (\<lambda>x. level r < level x) rest"
  define others where "others = dropWhile (\<lambda>x. level r < level x) rest"
  define an where "an = length h"
  define lr where "lr = int (level r)"
  define nd where "nd = \<lparr>name = content r, children = an\<rparr>"
  define h1 where "h1 = (h @ [[]])[a0 := (h @ [[]]) ! a0 @ [nd]]"
  have rest: "rest = kids @ others" by (simp add: kids_def others_def)
  have wf: "wf_heap h" and a0: "a0 < length h" using "2.prems"(1,2) by simp_all
  have step: "attach \<lparr>heap = h, stack = junk @ (l0, a0) # st0\<rparr> r =
              Inr \<lparr>heap = h1, stack = [] @ (lr, an) # (l0, a0) # st0\<rparr>"
    using attach_step [of junk r st0 l0 h a0] "2.prems"(3,4)
    by (auto simp: h1_def nd_def an_def lr_def)
  have wf1: "wf_heap h1"
    unfolding h1_def nd_def an_def by (rule wf_heap_push [OF wf a0])
  have len1: "length h1 = Suc (length h)" by (simp add: h1_def)
  have h1_an: "h1 ! an = []" using a0 by (simp add: h1_def an_def)
  have h1_a0: "h1 ! a0 = h ! a0 @ [nd]" using a0 by (simp add: h1_def nth_append)
  have h1_old: "\<And>b. b < length h \<Longrightarrow> b \<noteq> a0 \<Longrightarrow> h1 ! b = h ! b"
    by (simp add: h1_def nth_append)
  have kids_deep: "\<forall>x \<in> set kids. lr < int (level x)"
    unfolding kids_def lr_def by (auto dest: set_takeWhileD)
  from "2.IH"(1) [of h1 an "(l0, a0) # st0" lr "[]", folded kids_def]
  obtain h2 st2 ns2 where
    run2: "add_recs \<lparr>heap = h1, stack = [] @ (lr, an) # (l0, a0) # st0\<rparr> kids =
             Inr \<lparr>heap = h2, stack = st2 @ (lr, an) # (l0, a0) # st0\<rparr>"
    and wf2: "wf_heap h2" and len2: "length h2 = length h1 + length kids"
    and old2: "\<forall>b < length h1. b \<noteq> an \<longrightarrow> h2 ! b = h1 ! b"
    and h2_an: "h2 ! an = h1 ! an @ ns2"
    and ns2: "\<forall>n \<in> set ns2. length h1 \<le> children n"
    and forest2: "map (\<lambda>n. Folder (name n) (reify h2 (children n))) ns2 = forest_of kids"
    and st2: "\<forall>f \<in> set st2. f \<in> set [] \<or> (\<exists>x \<in> set kids. fst f = int (level x))"
    using wf1 len1 kids_deep by (auto simp: an_def)
  have junk3: "others \<noteq> [] \<longrightarrow> (\<forall>f \<in> set (st2 @ [(lr, an)]). int (level (hd others)) \<le> fst f)"
  proof
    assume "others \<noteq> []"
    then have "\<not> level r < level (hd others)"
      unfolding others_def by (rule hd_dropWhile)
    then show "\<forall>f \<in> set (st2 @ [(lr, an)]). int (level (hd others)) \<le> fst f"
      using st2 kids_deep by (fastforce simp: lr_def)
  qed
  have deep3: "st0 = [] \<or> (\<forall>x \<in> set others. l0 < int (level x))"
    using "2.prems"(3) by (auto simp: others_def dest: set_dropWhileD)
  from "2.IH"(2) [of h2 a0 st0 l0 "st2 @ [(lr, an)]", folded others_def]
  obtain h3 st3 ns3 where
    run3: "add_recs \<lparr>heap = h2, stack = (st2 @ [(lr, an)]) @ (l0, a0) # st0\<rparr> others =
             Inr \<lparr>heap = h3, stack = st3 @ (l0, a0) # st0\<rparr>"
    and wf3: "wf_heap h3" and len3: "length h3 = length h2 + length others"
    and old3: "\<forall>b < length h2. b \<noteq> a0 \<longrightarrow> h3 ! b = h2 ! b"
    and h3_a0: "h3 ! a0 = h2 ! a0 @ ns3"
    and ns3: "\<forall>n \<in> set ns3. length h2 \<le> children n"
    and forest3: "map (\<lambda>n. Folder (name n) (reify h3 (children n))) ns3 = forest_of others"
    and st3: "\<forall>f \<in> set st3. f \<in> set (st2 @ [(lr, an)]) \<or> (\<exists>x \<in> set others. fst f = int (level x))"
    using wf2 a0 len1 len2 junk3 deep3 by auto
  have run: "add_recs \<lparr>heap = h, stack = junk @ (l0, a0) # st0\<rparr> (r # rest) =
             Inr \<lparr>heap = h3, stack = st3 @ (l0, a0) # st0\<rparr>"
    using step run2 run3 by (simp add: rest add_recs_append)
  have len: "length h3 = length h + length (r # rest)"
    using len1 len2 len3 by (simp add: rest)
  have old: "\<forall>b < length h. b \<noteq> a0 \<longrightarrow> h3 ! b = h ! b"
    using old3 old2 h1_old len1 len2 by (auto simp: an_def)
  have a0_an: "a0 < an" using a0 by (simp add: an_def)
  have h3_a0': "h3 ! a0 = h ! a0 @ nd # ns3"
    using h3_a0 old2 h1_a0 a0_an len1 by (auto simp: an_def)
  have ns: "\<forall>n \<in> set (nd # ns3). length h \<le> children n"
    using ns3 len1 len2 by (auto simp: nd_def an_def)
  have "reify h3 an = reify h2 an"
    using wf2 len1 len2 len3 old3 a0_an
    by (intro reify_agree) (auto simp: an_def)
  also have "\<dots> = map (\<lambda>n. Folder (name n) (reify h2 (children n))) ns2"
    using h2_an h1_an ns2 len1 len2
    by (subst reify.simps) (auto simp: an_def)
  finally have kids_ok: "reify h3 an = forest_of kids" using forest2 by simp
  have forest: "map (\<lambda>n. Folder (name n) (reify h3 (children n))) (nd # ns3) = forest_of (r # rest)"
    using kids_ok forest3 by (simp add: nd_def kids_def others_def)
  have st: "\<forall>f \<in> set st3. f \<in> set junk \<or> (\<exists>x \<in> set (r # rest). fst f = int (level x))"
    using st3 st2 by (fastforce simp: rest lr_def)
  show ?case
    using run wf3 len old h3_a0' ns forest st by blast
qed

text \<open>
  From the initial state the loop never throws, and in the store it leaves every node
  refers to a later array, so that the test in \<open>reify\<close> never fails and the
  forest read from the root is the forest of the outline.
\<close>

lemma add_recs_init:
  "\<exists>s. add_recs init_state rs = Inr s \<and> wf_heap (heap s) \<and> reify (heap s) 0 = forest_of rs"
proof -
  have "wf_heap [[]]" by (simp add: wf_heap_def)
  from add_recs_segment [OF this, of 0 "[]" rs "-1" "[]"]
  obtain h' st' ns where
    run: "add_recs init_state rs = Inr \<lparr>heap = h', stack = st' @ [(-1, 0)]\<rparr>"
    and wf: "wf_heap h'"
    and len: "length h' = 1 + length rs"
    and root: "h' ! 0 = ns"
    and ns: "\<forall>n \<in> set ns. 1 \<le> children n"
    and forest: "map (\<lambda>n. Folder (name n) (reify h' (children n))) ns = forest_of rs"
    by (auto simp: init_state_def)
  have "map (\<lambda>n. Folder (name n) (if 0 < children n then reify h' (children n) else [])) ns =
        map (\<lambda>n. Folder (name n) (reify h' (children n))) ns"
    using ns by (intro map_cong) auto
  then have "reify h' 0 = forest_of rs"
    using len root forest by (subst reify.simps) simp
  then show ?thesis using run wf by simp
qed

lemma buildTree_forest_of: "buildTree lines = Inr (forest_of (records lines))"
  using add_recs_init [of "records lines"]
  by (auto simp: buildTree_def add_lines_records)

subsection \<open>The forest of an outline\<close>

lemma preorder_append: "preorder (xs @ ys) = preorder xs @ preorder ys"
  by (induction xs rule: preorder.induct) auto

lemma preorder_forest_of: "preorder (forest_of rs) = map content rs"
proof (induction rs rule: forest_of.induct)
  case 1
  show ?case by simp
next
  case (2 r rest)
  have "map content rest =
        map content (takeWhile (\<lambda>x. level r < level x) rest) @
        map content (dropWhile (\<lambda>x. level r < level x) rest)"
    by (simp flip: map_append)
  then show ?case using 2 by simp
qed

lemma nearest_shallower_take:
  "i < length ds \<Longrightarrow> nearest_shallower ds i = last_below (ds ! i) (take i ds)"
  unfolding nearest_shallower_def last_below_def
  by (rule find_cong) auto

lemma last_below_snoc:
  "last_below d (ds @ [x]) = (if x < d then Some (length ds) else last_below d ds)"
proof -
  have "List.find (\<lambda>j. (ds @ [x]) ! j < d) (rev [0..<length ds]) =
        List.find (\<lambda>j. ds ! j < d) (rev [0..<length ds])"
    by (rule find_cong) (auto simp: nth_append)
  then show ?thesis by (simp add: last_below_def)
qed

lemma last_below_append:
  "last_below d (xs @ ys) =
     (case last_below d ys of Some p \<Rightarrow> Some (length xs + p) | None \<Rightarrow> last_below d xs)"
proof (induction ys rule: rev_induct)
  case Nil
  show ?case by (simp add: last_below_def)
next
  case (snoc y ys)
  show ?case
    using snoc last_below_snoc [of d "xs @ ys" y] last_below_snoc [of d ys y]
    by simp
qed

lemma last_below_None: "last_below d ds = None \<longleftrightarrow> (\<forall>x \<in> set ds. d \<le> x)"
proof (induction ds rule: rev_induct)
  case Nil
  show ?case by (simp add: last_below_def)
next
  case (snoc y ys)
  then show ?case by (auto simp: last_below_snoc)
qed

lemma nearest_shallower_kid:
  assumes "i < length dk" and "d < dk ! i"
  shows "nearest_shallower (d # dk @ dz) (Suc i) =
         (case nearest_shallower dk i of None \<Rightarrow> Some 0 | Some p \<Rightarrow> Some (Suc p))"
proof -
  have "nearest_shallower (d # dk @ dz) (Suc i) = last_below (dk ! i) ([d] @ take i dk)"
    using assms(1) by (simp add: nearest_shallower_take nth_append)
  also have "\<dots> = (case last_below (dk ! i) (take i dk) of
                      Some p \<Rightarrow> Some (Suc p) | None \<Rightarrow> Some 0)"
    using assms(2) last_below_snoc [of "dk ! i" "[]" d]
    by (simp only: last_below_append) (simp add: last_below_def split: option.splits)
  finally show ?thesis
    using assms(1) by (simp add: nearest_shallower_take split: option.splits)
qed

lemma nearest_shallower_other:
  assumes "i < length dz" and "\<forall>x \<in> set dk. d < x" and "dz ! 0 \<le> d"
  shows "nearest_shallower (d # dk @ dz) (Suc (length dk + i)) =
         (case nearest_shallower dz i of None \<Rightarrow> None | Some p \<Rightarrow> Some (Suc (length dk + p)))"
proof -
  have "nearest_shallower (d # dk @ dz) (Suc (length dk + i)) =
        last_below (dz ! i) ((d # dk) @ take i dz)"
    using assms(1) by (simp add: nearest_shallower_take nth_append)
  also have "\<dots> = (case last_below (dz ! i) (take i dz) of
                      Some p \<Rightarrow> Some (Suc (length dk + p)) | None \<Rightarrow> last_below (dz ! i) (d # dk))"
    by (simp only: last_below_append) (simp split: option.splits)
  finally have eq: "nearest_shallower (d # dk @ dz) (Suc (length dk + i)) =
      (case nearest_shallower dz i of
         Some p \<Rightarrow> Some (Suc (length dk + p)) | None \<Rightarrow> last_below (dz ! i) (d # dk))"
    using assms(1) by (simp add: nearest_shallower_take)
  show ?thesis
  proof (cases "nearest_shallower dz i")
    case (Some p)
    then show ?thesis using eq by simp
  next
    case None
    then have all: "\<forall>x \<in> set (take i dz). dz ! i \<le> x"
      using assms(1) by (simp add: nearest_shallower_take last_below_None)
    have "dz ! i \<le> dz ! 0"
    proof (cases i)
      case 0
      then show ?thesis by simp
    next
      case (Suc k)
      then have "dz ! 0 \<in> set (take i dz)"
        using assms(1) by (auto simp: in_set_conv_nth intro!: exI [of _ 0])
      then show ?thesis using all by blast
    qed
    then have "\<forall>x \<in> set (d # dk). dz ! i \<le> x"
      using assms(2,3) by fastforce
    then have "last_below (dz ! i) (d # dk) = None"
      by (simp only: last_below_None)
    then show ?thesis using eq None by simp
  qed
qed

lemma upt_split3:
  "[0..<Suc (m + n)] = 0 # map Suc [0..<m] @ map (\<lambda>i. Suc (m + i)) [0..<n]"
proof -
  have a: "[0..<Suc (m + n)] = 0 # [Suc 0..<Suc (m + n)]"
    by (rule upt_conv_Cons) simp
  have b: "[Suc 0..<Suc (m + n)] = map Suc [0..<m + n]"
    by (simp only: map_Suc_upt)
  have c: "[0..<m + n] = [0..<m] @ [m..<m + n]"
    by (rule upt_add_eq_append) simp
  have d: "[m..<m + n] = map (\<lambda>i. m + i) [0..<n]"
    using map_add_upt [of m n] by (simp only: add.commute [of _ m])
  show ?thesis
    unfolding a b c d by (simp only: map_append map_map comp_def)
qed

lemma parents_forest_of:
  "parents_of par off (forest_of rs) =
     map (\<lambda>i. case nearest_shallower (map level rs) i of
                 None \<Rightarrow> par | Some p \<Rightarrow> Some (off + p)) [0..<length rs]"
proof (induction rs arbitrary: par off rule: forest_of.induct)
  case 1
  show ?case by simp
next
  case (2 r rest)
  define kids where "kids = takeWhile (\<lambda>x. level r < level x) rest"
  define others where "others = dropWhile (\<lambda>x. level r < level x) rest"
  define ds where "ds = level r # map level kids @ map level others"
  have rest: "rest = kids @ others" by (simp add: kids_def others_def)
  have ds: "map level (r # rest) = ds" by (simp add: ds_def rest)
  have kids_deep: "\<forall>x \<in> set (map level kids). level r < x"
    unfolding kids_def by (auto dest: set_takeWhileD)
  have hd_others: "others \<noteq> [] \<Longrightarrow> map level others ! 0 \<le> level r"
    using hd_dropWhile [of "\<lambda>x. level r < level x" rest]
    by (simp add: others_def hd_conv_nth)
  have first: "nearest_shallower ds 0 = None"
    by (simp add: nearest_shallower_def)
  have k: "map (\<lambda>i. case nearest_shallower (map level kids) i of
                       None \<Rightarrow> Some off | Some p \<Rightarrow> Some (Suc off + p)) [0..<length kids] =
           map (\<lambda>i. case nearest_shallower ds (Suc i) of
                       None \<Rightarrow> par | Some p \<Rightarrow> Some (off + p)) [0..<length kids]"
    using kids_deep
    by (intro map_cong refl) (simp add: ds_def nearest_shallower_kid split: option.splits)
  have o: "map (\<lambda>i. case nearest_shallower (map level others) i of
                       None \<Rightarrow> par | Some p \<Rightarrow> Some (Suc (off + length kids) + p)) [0..<length others] =
           map (\<lambda>i. case nearest_shallower ds (Suc (length kids + i)) of
                       None \<Rightarrow> par | Some p \<Rightarrow> Some (off + p)) [0..<length others]"
  proof (intro map_cong refl)
    fix i assume "i \<in> set [0..<length others]"
    then have i: "i < length (map level others)" by simp
    then have "others \<noteq> []" by auto
    then show "(case nearest_shallower (map level others) i of
                  None \<Rightarrow> par | Some p \<Rightarrow> Some (Suc (off + length kids) + p)) =
               (case nearest_shallower ds (Suc (length kids + i)) of
                  None \<Rightarrow> par | Some p \<Rightarrow> Some (off + p))"
      using nearest_shallower_other [OF i kids_deep hd_others]
      by (simp add: ds_def split: option.splits)
  qed
  have "parents_of par off (forest_of (r # rest)) =
        par # parents_of (Some off) (Suc off) (forest_of kids) @
              parents_of par (Suc (off + length kids)) (forest_of others)"
    by (simp add: kids_def others_def preorder_forest_of)
  also have "\<dots> = map (\<lambda>i. case nearest_shallower ds i of
                              None \<Rightarrow> par | Some p \<Rightarrow> Some (off + p))
                     [0..<Suc (length kids + length others)]"
    unfolding upt_split3
    using "2.IH"(1) [of "Some off" "Suc off", folded kids_def]
          "2.IH"(2) [of par "Suc (off + length kids)", folded others_def] k o first
    by (simp add: comp_def)
  finally show ?case by (simp only: ds) (simp add: rest)
qed

subsection \<open>createFolders as a walk over the paths\<close>

lemma visit_all_append:
  "visit_all api (xs @ ys) w =
     (case visit_all api xs w of
        (Some e, w1) \<Rightarrow> (Some e, w1)
      | (None, w1) \<Rightarrow> visit_all api ys w1)"
  by (induction xs arbitrary: w) (auto split: prod.splits option.splits)

lemma createFolders_visit_all:
  "createFolders api forest parentPath w = visit_all api (paths api forest parentPath) w"
proof (induction api forest parentPath w rule: createFolders.induct)
  case (1 api parentPath w)
  show ?case by simp
next
  case (2 api nm kids rest parentPath w)
  show ?case
  proof (cases "visit api (join api parentPath nm) w")
    case (Pair r w1)
    show ?thesis
    proof (cases r)
      case (Some e)
      then show ?thesis using Pair by simp
    next
      case None
      note v = Pair [unfolded None]
      have kids: "(if kids \<noteq> [] then createFolders api kids (join api parentPath nm) w1 else (None, w1)) =
                  visit_all api (paths api kids (join api parentPath nm)) w1"
        using "2.IH"(1) [OF refl v [symmetric] refl] by (cases kids) auto
      show ?thesis
      proof (cases "visit_all api (paths api kids (join api parentPath nm)) w1")
        case (Pair r2 w2)
        show ?thesis
        proof (cases r2)
          case (Some e)
          then show ?thesis using v kids Pair by (simp add: visit_all_append)
        next
          case None
          have "(None, w2) =
                (if kids \<noteq> [] then createFolders api kids (join api parentPath nm) w1
                 else (None, w1))"
            using kids Pair None by simp
          from "2.IH"(2) [OF refl v [symmetric] refl this refl]
          show ?thesis
            using v kids Pair None by (simp add: visit_all_append)
        qed
      qed
    qed
  qed
qed

lemma visit_cases:
  obtains (exists) "existsSync api (fs w) q"
      "visit api q w = (None, w\<lparr>console := console w @ [Exists q]\<rparr>)"
    | (created) f' where "\<not> existsSync api (fs w) q" "mkdirSync api (fs w) q = (None, f')"
      "visit api q w = (None, \<lparr>fs = f', console = console w @ [Created q]\<rparr>)"
    | (threw) e f' where "\<not> existsSync api (fs w) q" "mkdirSync api (fs w) q = (Some e, f')"
      "visit api q w = (Some e, w\<lparr>fs := f'\<rparr>)"
proof (cases "existsSync api (fs w) q")
  case True
  then show ?thesis using exists by (simp add: visit_def)
next
  case False
  show ?thesis
  proof (cases "mkdirSync api (fs w) q")
    case (Pair r f')
    then show ?thesis using False created [of f'] threw [of _ f']
      by (cases r) (simp_all add: visit_def)
  qed
qed

lemma visit_all_existing:
  "\<forall>q \<in> set qs. existsSync api (fs w) q \<Longrightarrow>
   visit_all api qs w = (None, w\<lparr>console := console w @ map Exists qs\<rparr>)"
  by (induction qs arbitrary: w) (simp_all add: visit_def)

lemma visit_keeps:
  assumes "mkdir_keeps api" and "visit api p w = (r, w')" and "existsSync api (fs w) q"
  shows "existsSync api (fs w') q"
proof (cases rule: visit_cases [of api w p])
  case exists
  then show ?thesis using assms by auto
next
  case (created f')
  then have "fs w' = f'" using assms(2) by auto
  then show ?thesis
    using assms(1,3) created(2) unfolding mkdir_keeps_def by blast
next
  case (threw e f')
  then have "fs w' = f'" using assms(2) by auto
  then show ?thesis
    using assms(1,3) threw(2) unfolding mkdir_keeps_def by blast
qed

lemma visit_all_keeps:
  "mkdir_keeps api \<Longrightarrow> visit_all api qs w = (r, w') \<Longrightarrow> existsSync api (fs w) q \<Longrightarrow>
   existsSync api (fs w') q"
proof (induction qs arbitrary: w)
  case Nil
  then show ?case by simp
next
  case (Cons p qs)
  obtain r1 w1 where v: "visit api p w = (r1, w1)" by (cases "visit api p w")
  have ex1: "existsSync api (fs w1) q" by (rule visit_keeps [OF Cons.prems(1) v Cons.prems(3)])
  show ?case
  proof (cases r1)
    case None
    then show ?thesis using Cons.IH [OF Cons.prems(1) _ ex1] Cons.prems(2) v by simp
  next
    case (Some e)
    then show ?thesis using Cons.prems(2) v ex1 by simp
  qed
qed

lemma visit_done_exists:
  assumes "mkdir_creates api" and "visit api p w = (None, w')"
  shows "existsSync api (fs w') p"
proof (cases rule: visit_cases [of api w p])
  case exists
  then show ?thesis using assms by auto
next
  case (created f')
  then have "fs w' = f'" using assms(2) by auto
  then show ?thesis using assms(1) created(2) unfolding mkdir_creates_def by blast
next
  case (threw e f')
  then show ?thesis using assms(2) by simp
qed

lemma visit_all_done_exist:
  "mkdir_creates api \<Longrightarrow> mkdir_keeps api \<Longrightarrow> visit_all api qs w = (None, w') \<Longrightarrow>
   \<forall>q \<in> set qs. existsSync api (fs w') q"
proof (induction qs arbitrary: w)
  case Nil
  show ?case by simp
next
  case (Cons p qs)
  obtain r1 w1 where v: "visit api p w = (r1, w1)" by (cases "visit api p w")
  then have r1: "r1 = None" and rest: "visit_all api qs w1 = (None, w')"
    using Cons.prems(3) by (auto split: option.splits)
  have "existsSync api (fs w1) p"
    using visit_done_exists [OF Cons.prems(1)] v r1 by simp
  then have "existsSync api (fs w') p"
    by (rule visit_all_keeps [OF Cons.prems(2) rest])
  then show ?case using Cons.IH [OF Cons.prems(1,2) rest] by simp
qed

lemma visit_all_trace:
  "visit_all api qs w = (r, w') \<Longrightarrow>
   \<exists>reps. console w' = console w @ reps \<and> map report_path reps = take (length reps) qs \<and>
     (r = None \<longrightarrow> length reps = length qs \<and> fs w' = mkdirs api (fs w) reps) \<and>
     (\<forall>e. r = Some e \<longrightarrow> length reps < length qs \<and>
          \<not> existsSync api (mkdirs api (fs w) reps) (qs ! length reps) \<and>
          mkdirSync api (mkdirs api (fs w) reps) (qs ! length reps) = (Some e, fs w'))"
proof (induction qs arbitrary: w)
  case Nil
  then show ?case by auto
next
  case (Cons p qs)
  show ?case
  proof (cases rule: visit_cases [of api w p])
    case exists
    then have "visit_all api qs (w\<lparr>console := console w @ [Exists p]\<rparr>) = (r, w')"
      using Cons.prems by simp
    from Cons.IH [OF this] obtain reps where
      "console w' = console w @ Exists p # reps"
      "map report_path reps = take (length reps) qs"
      "r = None \<longrightarrow> length reps = length qs \<and> fs w' = mkdirs api (fs w) reps"
      "\<forall>e. r = Some e \<longrightarrow> length reps < length qs \<and>
           \<not> existsSync api (mkdirs api (fs w) reps) (qs ! length reps) \<and>
           mkdirSync api (mkdirs api (fs w) reps) (qs ! length reps) = (Some e, fs w')"
      by auto
    then show ?thesis
      by (intro exI [of _ "Exists p # reps"]) auto
  next
    case (created f')
    then have "visit_all api qs \<lparr>fs = f', console = console w @ [Created p]\<rparr> = (r, w')"
      using Cons.prems by simp
    from Cons.IH [OF this] obtain reps where
      "console w' = console w @ Created p # reps"
      "map report_path reps = take (length reps) qs"
      "r = None \<longrightarrow> length reps = length qs \<and> fs w' = mkdirs api f' reps"
      "\<forall>e. r = Some e \<longrightarrow> length reps < length qs \<and>
           \<not> existsSync api (mkdirs api f' reps) (qs ! length reps) \<and>
           mkdirSync api (mkdirs api f' reps) (qs ! length reps) = (Some e, fs w')"
      by auto
    then show ?thesis
      using created(2)
      by (intro exI [of _ "Created p # reps"]) auto
  next
    case (threw e f')
    then have "r = Some e" "w' = w\<lparr>fs := f'\<rparr>"
      using Cons.prems by simp_all
    then show ?thesis using threw(1,2)
      by (intro exI [of _ "[]"]) simp
  qed
qed

lemma visit_all_created_exist:
  "mkdir_creates api \<Longrightarrow> mkdir_keeps api \<Longrightarrow> visit_all api qs w = (r, w') \<Longrightarrow>
   console w' = console w @ reps \<Longrightarrow> Created p \<in> set reps \<Longrightarrow> existsSync api (fs w') p"
proof (induction qs arbitrary: w reps)
  case Nil
  then show ?case by simp
next
  case (Cons q qs)
  show ?case
  proof (cases rule: visit_cases [of api w q])
    case exists
    then have run: "visit_all api qs (w\<lparr>console := console w @ [Exists q]\<rparr>) = (r, w')"
      using Cons.prems(3) by simp
    obtain reps' where "console w' = console w @ Exists q # reps'"
      using visit_all_trace [OF run] by auto
    then have "console w' = console (w\<lparr>console := console w @ [Exists q]\<rparr>) @ reps'"
      and "Created p \<in> set reps'"
      using Cons.prems(4,5) by auto
    then show ?thesis using Cons.IH [OF Cons.prems(1,2) run] by blast
  next
    case (created f')
    then have run: "visit_all api qs \<lparr>fs = f', console = console w @ [Created q]\<rparr> = (r, w')"
      using Cons.prems(3) by simp
    obtain reps' where c: "console w' = console w @ Created q # reps'"
      using visit_all_trace [OF run] by auto
    then have reps: "reps = Created q # reps'" using Cons.prems(4) by simp
    show ?thesis
    proof (cases "p = q")
      case True
      have "existsSync api f' q"
        using Cons.prems(1) created(2) unfolding mkdir_creates_def by blast
      then show ?thesis
        using visit_all_keeps [OF Cons.prems(2) run, of q] True by simp
    next
      case False
      then have "Created p \<in> set reps'" using Cons.prems(5) reps by simp
      moreover have "console w' = console \<lparr>fs = f', console = console w @ [Created q]\<rparr> @ reps'"
        using c by simp
      ultimately show ?thesis using Cons.IH [OF Cons.prems(1,2) run] by blast
    qed
  next
    case (threw e f')
    then have "w' = w\<lparr>fs := f'\<rparr>" using Cons.prems(3) by simp
    then show ?thesis using Cons.prems(4,5) by simp
  qed
qed

lemma visit_all_faithful:
  "visit_all api qs w = (r, w') \<Longrightarrow> console w' = console w @ reps \<Longrightarrow>
   faithful api (fs w) reps"
proof (induction qs arbitrary: w reps)
  case Nil
  then show ?case by simp
next
  case (Cons q qs)
  show ?case
  proof (cases rule: visit_cases [of api w q])
    case exists
    then have run: "visit_all api qs (w\<lparr>console := console w @ [Exists q]\<rparr>) = (r, w')"
      using Cons.prems(1) by simp
    obtain reps' where c: "console w' = console w @ Exists q # reps'"
      using visit_all_trace [OF run] by auto
    then have reps: "reps = Exists q # reps'" using Cons.prems(2) by simp
    have "faithful api (fs (w\<lparr>console := console w @ [Exists q]\<rparr>)) reps'"
      using c by (intro Cons.IH [OF run]) simp
    then show ?thesis using exists(1) reps by simp
  next
    case (created f')
    then have run: "visit_all api qs \<lparr>fs = f', console = console w @ [Created q]\<rparr> = (r, w')"
      using Cons.prems(1) by simp
    obtain reps' where c: "console w' = console w @ Created q # reps'"
      using visit_all_trace [OF run] by auto
    then have reps: "reps = Created q # reps'" using Cons.prems(2) by simp
    have "faithful api (fs \<lparr>fs = f', console = console w @ [Created q]\<rparr>) reps'"
      using c by (intro Cons.IH [OF run]) simp
    then show ?thesis using created(1,2) reps by simp
  next
    case (threw e f')
    then have "w' = w\<lparr>fs := f'\<rparr>" using Cons.prems(1) by simp
    then show ?thesis using Cons.prems(2) by simp
  qed
qed

lemma visit_all_fails:
  "faithful api f reps \<Longrightarrow> map report_path reps = take (length reps) qs \<Longrightarrow>
   length reps < length qs \<Longrightarrow>
   \<not> existsSync api (mkdirs api f reps) (qs ! length reps) \<Longrightarrow>
   mkdirSync api (mkdirs api f reps) (qs ! length reps) = (Some e, f') \<Longrightarrow>
   visit_all api qs \<lparr>fs = f, console = c\<rparr> = (Some e, \<lparr>fs = f', console = c @ reps\<rparr>)"
proof (induction reps arbitrary: qs f c)
  case Nil
  then obtain q qs' where qs: "qs = q # qs'" by (cases qs) auto
  then show ?case using Nil by (simp add: visit_def)
next
  case (Cons rep reps)
  then obtain q qs' where qs: "qs = q # qs'" by (cases qs) auto
  show ?case
  proof (cases rep)
    case (Created p)
    then have p: "p = q" using Cons.prems(2) qs by simp
    obtain f1 where mk: "mkdirSync api f q = (None, f1)"
      using Cons.prems(1) Created p by (cases "mkdirSync api f q") auto
    have "visit_all api qs' \<lparr>fs = f1, console = (c @ [Created q])\<rparr> =
          (Some e, \<lparr>fs = f', console = (c @ [Created q]) @ reps\<rparr>)"
      using Cons.prems Created p qs mk by (intro Cons.IH) auto
    then show ?thesis
      using Cons.prems(1) Created p qs mk by (simp add: visit_def)
  next
    case (Exists p)
    then have p: "p = q" using Cons.prems(2) qs by simp
    have "visit_all api qs' \<lparr>fs = f, console = (c @ [Exists q])\<rparr> =
          (Some e, \<lparr>fs = f', console = (c @ [Exists q]) @ reps\<rparr>)"
      using Cons.prems Exists p qs by (intro Cons.IH) auto
    then show ?thesis
      using Cons.prems(1) Exists p qs by (simp add: visit_def)
  qed
qed

subsection \<open>Further facts used below\<close>

lemma forest_of_flat:
  "list_all (\<lambda>r. level r = 0) rs \<Longrightarrow> forest_of rs = map (\<lambda>r. Folder (content r) []) rs"
proof (induction rs)
  case Nil
  show ?case by simp
next
  case (Cons r rs)
  then have "takeWhile (\<lambda>x. level r < level x) rs = []"
    by (cases rs) simp_all
  moreover from this have "dropWhile (\<lambda>x. level r < level x) rs = rs"
    using takeWhile_dropWhile_id [of "\<lambda>x. level r < level x" rs] by simp
  ultimately show ?case using Cons by simp
qed

lemma records_append: "records (xs @ ys) = records xs @ records ys"
  by (simp add: records_def map_filter_def)

lemma records_Cons:
  "\<not> blank l \<Longrightarrow> records (l # ls) = the (parseLine l) # records ls"
  by (auto simp: records_def map_filter_simps parseLine_None_iff [symmetric])

lemma records_blank: "blank b \<Longrightarrow> records (b # ls) = records ls"
  by (simp add: records_def map_filter_simps parseLine_None_iff [symmetric])

lemma paths_mkdirSync_update [simp]: "paths (api\<lparr>mkdirSync := mk\<rparr>) forest p = paths api forest p"
  by (induction api forest p rule: paths.induct) simp_all

lemma mem_api_creates: "mkdir_creates (mem_api denied)"
  by (auto simp: mkdir_creates_def mem_api_def split: if_splits)

lemma mem_api_keeps: "mkdir_keeps (mem_api denied)"
  by (auto simp: mkdir_keeps_def mem_api_def split: if_splits)

lemma visit_existing:
  "existsSync api (fs w) q \<Longrightarrow> visit api q w = (None, w\<lparr>console := console w @ [Exists q]\<rparr>)"
  by (simp add: visit_def)

section \<open>The properties\<close>

text \<open>
  C1 (amended). The depth of a line is the number of its leading white space characters
  of every kind matched by \<open>\s\<close> (space, tab, carriage return, no-break space, ...),
  divided by 4 and rounded down: for a line made of white space \<open>ind\<close> followed by a
  character \<open>c\<close> that is not white space, \<open>parseLine\<close> returns the depth
  \<open>length ind div 4\<close> and the trimmed rest as content. Each leading tab counts as one
  character. When the indentation consists of space characters only, the depth is the
  number of leading spaces divided by 4.
\<close>

theorem parseLine_depth:
  assumes "list_all is_ws ind" and "\<not> is_ws c"
  shows "\<exists>r. parseLine (ind @ c # rest) = Some r \<and> content r = trim (c # rest) \<and>
             level r = length ind div 4 \<and>
             (list_all (\<lambda>x. x = SP) ind \<longrightarrow>
                level r = leadingSpaceCount (ind @ c # rest) div 4)"
proof -
  have "c \<noteq> SP" using assms(2) by auto
  then have "list_all (\<lambda>x. x = SP) ind \<Longrightarrow> leadingSpaceCount (ind @ c # rest) = length ind"
    by (simp add: leadingSpaceCount_def takeWhile_append2 list_all_iff)
  then show ?thesis
    using parseLine_indent [OF assms, of rest] by auto
qed

theorem parseLine_depth_witness:
  "list_all is_ws [TAB, TAB, TAB, TAB, TAB] \<and> \<not> is_ws 0x61 \<and>
   list_all is_ws (replicate 8 SP) \<and> list_all (\<lambda>x. x = SP) (replicate 8 SP) \<and>
   (\<exists>r. parseLine ([TAB, TAB, TAB, TAB, TAB] @ 0x61 # js ''b  '') = Some r \<and>
        content r = js ''ab'' \<and> level r = 1) \<and>
   (\<exists>r. parseLine (replicate 8 SP @ 0x61 # []) = Some r \<and> level r = 2 \<and>
        leadingSpaceCount (replicate 8 SP @ 0x61 # []) div 4 = 2)"
proof -
  have tabs: "list_all is_ws [TAB, TAB, TAB, TAB, TAB]" by simp
  have spaces: "list_all is_ws (replicate 8 SP)" "list_all (\<lambda>x. x = SP) (replicate 8 SP)"
    by (simp_all add: list_all_iff)
  have a: "\<not> is_ws 0x61" by (simp add: is_ws_def)
  have t: "trim (0x61 # js ''b  '') = js ''ab''" by code_simp
  show ?thesis
    using parseLine_depth [OF tabs a, of "js ''b  ''"] parseLine_depth [OF spaces(1) a, of "[]"]
      tabs spaces a t
    by auto
qed

theorem tab_depth_counterexample:
  "parseLine ([TAB, TAB, TAB, TAB] @ js ''a'') = Some \<lparr>level = 1, content = js ''a''\<rparr> \<and>
   leadingSpaceCount ([TAB, TAB, TAB, TAB] @ js ''a'') div 4 = 0"
  by code_simp

text \<open>
  C2. The forest returned by \<open>buildTree\<close> holds the records in pre-order, and the parent
  of the node of each record is the node of the nearest preceding record with strictly
  smaller depth; the node is a root when there is no such record. The depth may jump by
  more than one, and no input makes \<open>buildTree\<close> fail.
\<close>

theorem buildTree_parents:
  "\<exists>forest. buildTree lines = Inr forest \<and>
     preorder forest = map content (records lines) \<and>
     parents forest =
       map (nearest_shallower (map level (records lines))) [0..<length (records lines)]"
proof -
  have "parents (forest_of (records lines)) =
        map (nearest_shallower (map level (records lines))) [0..<length (records lines)]"
    unfolding parents_def parents_forest_of
    by (intro map_cong refl) (simp split: option.splits)
  then show ?thesis
    by (simp add: buildTree_forest_of preorder_forest_of)
qed

theorem buildTree_parents_witness:
  "\<exists>forest. buildTree [js ''a'', js ''        b'', js ''    c'', js ''d''] = Inr forest \<and>
     forest = [Folder (js ''a'') [Folder (js ''b'') [], Folder (js ''c'') []], Folder (js ''d'') []] \<and>
     preorder forest = [js ''a'', js ''b'', js ''c'', js ''d''] \<and>
     parents forest = [None, Some 0, Some 0, None]"
proof -
  let ?lines = "[js ''a'', js ''        b'', js ''    c'', js ''d'']"
  have b: "buildTree ?lines =
           Inr [Folder (js ''a'') [Folder (js ''b'') [], Folder (js ''c'') []], Folder (js ''d'') []]"
    by code_simp
  have c: "map content (records ?lines) = [js ''a'', js ''b'', js ''c'', js ''d'']"
    by code_simp
  have p: "map (nearest_shallower (map level (records ?lines))) [0..<length (records ?lines)] =
           [None, Some 0, Some 0, None]"
    by code_simp
  show ?thesis
    using buildTree_parents [of ?lines] unfolding b c p by simp
qed

text \<open>
  C3. Materialization is idempotent. Assume that a created path exists afterwards and
  that creating a directory removes nothing, and let a first run of \<open>createFolders\<close> over
  a forest and a root path return normally. Then a second run over the file system the
  first run left reports \<open>Exists\<close> for every path of the forest, in pre-order, and
  leaves the file system as it is; it does so whatever \<open>mkdirSync\<close> would do, that is,
  \<open>mkdirSync\<close> is not called.
\<close>

theorem createFolders_idempotent:
  assumes "mkdir_creates api" and "mkdir_keeps api"
    and "createFolders api forest root \<lparr>fs = f0, console = []\<rparr> = (None, w1)"
  shows "createFolders api forest root \<lparr>fs = fs w1, console = []\<rparr> =
           (None, \<lparr>fs = fs w1, console = map Exists (paths api forest root)\<rparr>) \<and>
         (\<forall>mk. createFolders (api\<lparr>mkdirSync := mk\<rparr>) forest root \<lparr>fs = fs w1, console = []\<rparr> =
           (None, \<lparr>fs = fs w1, console = map Exists (paths api forest root)\<rparr>))"
proof -
  have all: "createFolders (api\<lparr>mkdirSync := mk\<rparr>) forest root \<lparr>fs = fs w1, console = []\<rparr> =
             (None, \<lparr>fs = fs w1, console = map Exists (paths api forest root)\<rparr>)" for mk
  proof -
    let ?api = "api\<lparr>mkdirSync := mk\<rparr>"
    have "\<forall>q \<in> set (paths api forest root). existsSync api (fs w1) q"
      using visit_all_done_exist [OF assms(1,2)] assms(3)
      by (simp add: createFolders_visit_all)
    then have "\<forall>q \<in> set (paths ?api forest root).
                 existsSync ?api (fs \<lparr>fs = fs w1, console = []\<rparr>) q"
      by simp
    from visit_all_existing [OF this] show ?thesis
      by (simp add: createFolders_visit_all)
  qed
  from all [of "mkdirSync api"] all show ?thesis by simp
qed

theorem createFolders_idempotent_witness:
  "mkdir_creates (mem_api []) \<and> mkdir_keeps (mem_api []) \<and>
   createFolders (mem_api []) [Folder (js ''a'') [Folder (js ''b'') [], Folder (js ''c'') []]]
       (js ''/tmp/x'') \<lparr>fs = [], console = []\<rparr> =
     (None, \<lparr>fs = [js ''/tmp/x/a/c'', js ''/tmp/x/a/b'', js ''/tmp/x/a''],
             console = [Created (js ''/tmp/x/a''), Created (js ''/tmp/x/a/b''),
                        Created (js ''/tmp/x/a/c'')]\<rparr>) \<and>
   createFolders (mem_api []) [Folder (js ''a'') [Folder (js ''b'') [], Folder (js ''c'') []]]
       (js ''/tmp/x'')
       \<lparr>fs = [js ''/tmp/x/a/c'', js ''/tmp/x/a/b'', js ''/tmp/x/a''], console = []\<rparr> =
     (None, \<lparr>fs = [js ''/tmp/x/a/c'', js ''/tmp/x/a/b'', js ''/tmp/x/a''],
             console = [Exists (js ''/tmp/x/a''), Exists (js ''/tmp/x/a/b''),
                        Exists (js ''/tmp/x/a/c'')]\<rparr>)"
proof -
  let ?forest = "[Folder (js ''a'') [Folder (js ''b'') [], Folder (js ''c'') []]]"
  let ?w1 = "\<lparr>fs = [js ''/tmp/x/a/c'', js ''/tmp/x/a/b'', js ''/tmp/x/a''],
              console = [Created (js ''/tmp/x/a''), Created (js ''/tmp/x/a/b''),
                         Created (js ''/tmp/x/a/c'')]\<rparr>"
  have run: "createFolders (mem_api []) ?forest (js ''/tmp/x'') \<lparr>fs = [], console = []\<rparr> =
             (None, ?w1)"
    by code_simp
  have p: "map Exists (paths (mem_api []) ?forest (js ''/tmp/x'')) =
           [Exists (js ''/tmp/x/a''), Exists (js ''/tmp/x/a/b''), Exists (js ''/tmp/x/a/c'')]"
    by code_simp
  have f: "fs ?w1 = [js ''/tmp/x/a/c'', js ''/tmp/x/a/b'', js ''/tmp/x/a'']"
    by simp
  have again: "createFolders (mem_api []) ?forest (js ''/tmp/x'') \<lparr>fs = fs ?w1, console = []\<rparr> =
        (None, \<lparr>fs = fs ?w1, console = map Exists (paths (mem_api []) ?forest (js ''/tmp/x''))\<rparr>)"
    using createFolders_idempotent [OF mem_api_creates mem_api_keeps run] by blast
  show ?thesis
    by (intro conjI mem_api_creates mem_api_keeps run again [unfolded p f])
qed

text \<open>
  C4. The reports printed by \<open>createFolders\<close> follow the depth-first pre-order of the
  forest, siblings from left to right: the paths reported are an initial segment of the
  pre-order list of the paths of the forest, and the whole list when the run returns
  normally.
\<close>

theorem createFolders_preorder:
  assumes "createFolders api forest root \<lparr>fs = f0, console = []\<rparr> = (r, w')"
  shows "prefix (map report_path (console w')) (paths api forest root) \<and>
         (r = None \<longrightarrow> map report_path (console w') = paths api forest root)"
proof -
  from assms have "visit_all api (paths api forest root) \<lparr>fs = f0, console = []\<rparr> = (r, w')"
    by (simp add: createFolders_visit_all)
  from visit_all_trace [OF this] obtain reps where
    "console w' = reps"
    "map report_path reps = take (length reps) (paths api forest root)"
    "r = None \<longrightarrow> length reps = length (paths api forest root)"
    by auto
  then show ?thesis
    using take_is_prefix [of "length reps" "paths api forest root"] by auto
qed

theorem createFolders_preorder_witness:
  "createFolders (mem_api [])
       [Folder (js ''a'') [Folder (js ''b'') [Folder (js ''d'') []], Folder (js ''c'') []],
        Folder (js ''e'') []]
       (js ''/x'') \<lparr>fs = [js ''/x/a/b''], console = []\<rparr> =
     (None, \<lparr>fs = [js ''/x/e'', js ''/x/a/c'', js ''/x/a/b/d'', js ''/x/a'', js ''/x/a/b''],
             console = [Created (js ''/x/a''), Exists (js ''/x/a/b''), Created (js ''/x/a/b/d''),
                        Created (js ''/x/a/c''), Created (js ''/x/e'')]\<rparr>) \<and>
   paths (mem_api [])
       [Folder (js ''a'') [Folder (js ''b'') [Folder (js ''d'') []], Folder (js ''c'') []],
        Folder (js ''e'') []] (js ''/x'') =
     [js ''/x/a'', js ''/x/a/b'', js ''/x/a/b/d'', js ''/x/a/c'', js ''/x/e'']"
proof -
  let ?forest = "[Folder (js ''a'') [Folder (js ''b'') [Folder (js ''d'') []], Folder (js ''c'') []],
                  Folder (js ''e'') []]"
  let ?w = "\<lparr>fs = [js ''/x/e'', js ''/x/a/c'', js ''/x/a/b/d'', js ''/x/a'', js ''/x/a/b''],
             console = [Created (js ''/x/a''), Exists (js ''/x/a/b''), Created (js ''/x/a/b/d''),
                        Created (js ''/x/a/c''), Created (js ''/x/e'')]\<rparr>"
  have run: "createFolders (mem_api []) ?forest (js ''/x'') \<lparr>fs = [js ''/x/a/b''], console = []\<rparr> =
             (None, ?w)"
    by code_simp
  have m: "map report_path (console ?w) =
           [js ''/x/a'', js ''/x/a/b'', js ''/x/a/b/d'', js ''/x/a/c'', js ''/x/e'']"
    by simp
  show ?thesis
    using createFolders_preorder [OF run] run unfolding m by simp
qed

text \<open>
  C5. A failing \<open>mkdirSync\<close> ends the run. At a node whose path does not exist and
  on which \<open>mkdirSync\<close> throws, \<open>createFolders\<close> throws that exception at once:
  nothing is printed for the node, and neither its children nor the siblings that
  follow are visited. For a whole run, \<open>createFolders\<close> ends with the exception \<open>e\<close>
  exactly when the reports printed are those of the nodes that precede some node in
  pre-order, each telling what happened, the path of that node did not exist, and
  \<open>mkdirSync\<close> threw \<open>e\<close> on it; the file system at the end is the one that call left,
  applied to the file system that the creations reported before had produced, so nothing
  is rolled back and nothing later is attempted. When a created path exists afterwards
  and creating a directory removes nothing, every path reported as created exists at the
  end.
\<close>

theorem createFolders_failure:
  "(\<not> existsSync api (fs w) (join api parentPath nm) \<and>
    mkdirSync api (fs w) (join api parentPath nm) = (Some e, f') \<longrightarrow>
      createFolders api (Folder nm kids # rest) parentPath w = (Some e, w\<lparr>fs := f'\<rparr>)) \<and>
   (createFolders api forest root \<lparr>fs = f0, console = []\<rparr> = (Some e, w') \<longleftrightarrow>
      length (console w') < length (paths api forest root) \<and>
      map report_path (console w') = take (length (console w')) (paths api forest root) \<and>
      faithful api f0 (console w') \<and>
      \<not> existsSync api (mkdirs api f0 (console w'))
          (paths api forest root ! length (console w')) \<and>
      mkdirSync api (mkdirs api f0 (console w'))
          (paths api forest root ! length (console w')) = (Some e, fs w')) \<and>
   (createFolders api forest root \<lparr>fs = f0, console = []\<rparr> = (Some e, w') \<and>
    mkdir_creates api \<and> mkdir_keeps api \<longrightarrow>
      (\<forall>p. Created p \<in> set (console w') \<longrightarrow> existsSync api (fs w') p))"
proof (intro conjI)
  show "\<not> existsSync api (fs w) (join api parentPath nm) \<and>
        mkdirSync api (fs w) (join api parentPath nm) = (Some e, f') \<longrightarrow>
        createFolders api (Folder nm kids # rest) parentPath w = (Some e, w\<lparr>fs := f'\<rparr>)"
    by (simp add: visit_def Let_def)
next
  let ?qs = "paths api forest root"
  let ?w0 = "\<lparr>fs = f0, console = []\<rparr>"
  show "createFolders api forest root ?w0 = (Some e, w') \<longleftrightarrow>
        length (console w') < length ?qs \<and>
        map report_path (console w') = take (length (console w')) ?qs \<and>
        faithful api f0 (console w') \<and>
        \<not> existsSync api (mkdirs api f0 (console w')) (?qs ! length (console w')) \<and>
        mkdirSync api (mkdirs api f0 (console w')) (?qs ! length (console w')) = (Some e, fs w')"
    (is "?L \<longleftrightarrow> ?R")
  proof
    assume ?L
    then have run: "visit_all api ?qs ?w0 = (Some e, w')"
      by (simp add: createFolders_visit_all)
    from visit_all_trace [OF run] obtain reps where
      "console w' = reps"
      "map report_path reps = take (length reps) ?qs"
      "length reps < length ?qs"
      "\<not> existsSync api (mkdirs api f0 reps) (?qs ! length reps)"
      "mkdirSync api (mkdirs api f0 reps) (?qs ! length reps) = (Some e, fs w')"
      by auto
    moreover have "faithful api f0 (console w')"
      using visit_all_faithful [OF run, of "console w'"] by simp
    ultimately show ?R by simp
  next
    assume r: ?R
    then have "visit_all api ?qs \<lparr>fs = f0, console = []\<rparr> =
               (Some e, \<lparr>fs = fs w', console = [] @ console w'\<rparr>)"
      by (intro visit_all_fails) simp_all
    then show ?L by (simp add: createFolders_visit_all)
  qed
next
  show "createFolders api forest root \<lparr>fs = f0, console = []\<rparr> = (Some e, w') \<and>
        mkdir_creates api \<and> mkdir_keeps api \<longrightarrow>
        (\<forall>p. Created p \<in> set (console w') \<longrightarrow> existsSync api (fs w') p)"
    using visit_all_created_exist [of api "paths api forest root" "\<lparr>fs = f0, console = []\<rparr>"
        "Some e" w' "console w'"]
    by (auto simp: createFolders_visit_all)
qed

theorem createFolders_failure_witness:
  "faithful (mem_api [js ''/x/a/b'']) [] [Created (js ''/x/a'')] \<and>
   paths (mem_api [js ''/x/a/b''])
       [Folder (js ''a'') [Folder (js ''b'') [Folder (js ''d'') []], Folder (js ''c'') []],
        Folder (js ''e'') []] (js ''/x'') =
     [js ''/x/a'', js ''/x/a/b'', js ''/x/a/b/d'', js ''/x/a/c'', js ''/x/e''] \<and>
   \<not> existsSync (mem_api [js ''/x/a/b'']) [js ''/x/a''] (js ''/x/a/b'') \<and>
   mkdirSync (mem_api [js ''/x/a/b'']) [js ''/x/a''] (js ''/x/a/b'') = (Some EACCES, [js ''/x/a'']) \<and>
   createFolders (mem_api [js ''/x/a/b''])
       [Folder (js ''a'') [Folder (js ''b'') [Folder (js ''d'') []], Folder (js ''c'') []],
        Folder (js ''e'') []]
       (js ''/x'') \<lparr>fs = [], console = []\<rparr> =
     (Some EACCES, \<lparr>fs = [js ''/x/a''], console = [Created (js ''/x/a'')]\<rparr>) \<and>
   createFolders (mem_api [js ''/x/a/b'']) [Folder (js ''b'') [Folder (js ''d'') []], Folder (js ''c'') []]
       (js ''/x/a'') \<lparr>fs = [js ''/x/a''], console = [Created (js ''/x/a'')]\<rparr> =
     (Some EACCES, \<lparr>fs = [js ''/x/a''], console = [Created (js ''/x/a'')]\<rparr>) \<and>
   mkdir_creates (mem_api [js ''/x/a/b'']) \<and> mkdir_keeps (mem_api [js ''/x/a/b'']) \<and>
   existsSync (mem_api [js ''/x/a/b'']) [js ''/x/a''] (js ''/x/a'')"
proof -
  let ?api = "mem_api [js ''/x/a/b'']"
  let ?forest = "[Folder (js ''a'') [Folder (js ''b'') [Folder (js ''d'') []], Folder (js ''c'') []],
                  Folder (js ''e'') []]"
  let ?qs = "[js ''/x/a'', js ''/x/a/b'', js ''/x/a/b/d'', js ''/x/a/c'', js ''/x/e'']"
  let ?w = "\<lparr>fs = [js ''/x/a''], console = [Created (js ''/x/a'')]\<rparr>"
  let ?w1 = "\<lparr>fs = [js ''/x/a''], console = [Created (js ''/x/a'')]\<rparr>"
  have fa: "faithful ?api [] [Created (js ''/x/a'')]" by code_simp
  have p: "paths ?api ?forest (js ''/x'') = ?qs" by code_simp
  have f: "mkdirs ?api [] [Created (js ''/x/a'')] = [js ''/x/a'']" by code_simp
  have q: "?qs ! 1 = js ''/x/a/b''" by simp
  have j: "join ?api (js ''/x/a'') (js ''b'') = js ''/x/a/b''" by code_simp
  have ne: "\<not> existsSync ?api [js ''/x/a''] (js ''/x/a/b'')" by code_simp
  have mk: "mkdirSync ?api [js ''/x/a''] (js ''/x/a/b'') = (Some EACCES, [js ''/x/a''])"
    by code_simp
  have t: "take 1 ?qs = [js ''/x/a'']" by simp
  have c: "console ?w = [Created (js ''/x/a'')]" "fs ?w = [js ''/x/a'']"
    "length [Created (js ''/x/a'')] = 1" "length ?qs = 5"
    "map report_path [Created (js ''/x/a'')] = [js ''/x/a'']"
    by simp_all
  note th = createFolders_failure [of ?api _ _ _ EACCES _ _ _ ?forest "js ''/x''" "[]" ?w]
  have rhs: "length (console ?w) < length (paths ?api ?forest (js ''/x'')) \<and>
      map report_path (console ?w) = take (length (console ?w)) (paths ?api ?forest (js ''/x'')) \<and>
      faithful ?api [] (console ?w) \<and>
      \<not> existsSync ?api (mkdirs ?api [] (console ?w))
          (paths ?api ?forest (js ''/x'') ! length (console ?w)) \<and>
      mkdirSync ?api (mkdirs ?api [] (console ?w))
          (paths ?api ?forest (js ''/x'') ! length (console ?w)) = (Some EACCES, fs ?w)"
    unfolding p c f q t using fa ne mk by simp
  have run: "createFolders ?api ?forest (js ''/x'') \<lparr>fs = [], console = []\<rparr> = (Some EACCES, ?w)"
    using th rhs by blast
  have "Created (js ''/x/a'') \<in> set (console ?w)" by simp
  then have "existsSync ?api (fs ?w) (js ''/x/a'')"
    using th run mem_api_creates mem_api_keeps by blast
  then have e: "existsSync ?api [js ''/x/a''] (js ''/x/a'')"
    unfolding c .
  have "\<not> existsSync ?api (fs ?w1) (join ?api (js ''/x/a'') (js ''b'')) \<and>
        mkdirSync ?api (fs ?w1) (join ?api (js ''/x/a'') (js ''b'')) = (Some EACCES, [js ''/x/a''])"
    unfolding j c using ne mk by simp
  then have "createFolders ?api (Folder (js ''b'') [Folder (js ''d'') []] # [Folder (js ''c'') []])
               (js ''/x/a'') ?w1 = (Some EACCES, ?w1\<lparr>fs := [js ''/x/a'']\<rparr>)"
    using createFolders_failure [of ?api ?w1 "js ''/x/a''" "js ''b''" EACCES "[js ''/x/a'']"
        "[Folder (js ''d'') []]" "[Folder (js ''c'') []]"]
    by blast
  then have step: "createFolders ?api [Folder (js ''b'') [Folder (js ''d'') []], Folder (js ''c'') []]
               (js ''/x/a'') ?w1 = (Some EACCES, ?w1)"
    by simp
  show ?thesis
    by (intro conjI fa p ne mk run step e mem_api_creates mem_api_keeps)
qed

text \<open>
  C6. When the path of a node exists already, whatever is there, the node is reported as
  \<open>Exists\<close>, nothing is created for it and no exception is thrown for it, and the run goes
  on with the children of the node under that path, with the file system unchanged, and
  then with the siblings that follow.
\<close>

theorem createFolders_existing:
  assumes "existsSync api (fs w) (join api parentPath nm)"
  shows "visit api (join api parentPath nm) w =
           (None, w\<lparr>console := console w @ [Exists (join api parentPath nm)]\<rparr>) \<and>
         createFolders api (Folder nm kids # rest) parentPath w =
           (case createFolders api kids (join api parentPath nm)
                   (w\<lparr>console := console w @ [Exists (join api parentPath nm)]\<rparr>) of
              (Some e, w2) \<Rightarrow> (Some e, w2)
            | (None, w2) \<Rightarrow> createFolders api rest parentPath w2)"
  using assms by (cases kids) (simp_all add: visit_existing Let_def)

theorem createFolders_existing_witness:
  "existsSync (mem_api [js ''/x/a'']) (fs \<lparr>fs = [js ''/x/a''], console = []\<rparr>)
       (join (mem_api [js ''/x/a'']) (js ''/x'') (js ''a'')) \<and>
   mkdirSync (mem_api [js ''/x/a'']) [js ''/x/a''] (js ''/x/a'') = (Some EACCES, [js ''/x/a'']) \<and>
   createFolders (mem_api [js ''/x/a'']) [Folder (js ''a'') [Folder (js ''b'') []], Folder (js ''c'') []]
       (js ''/x'') \<lparr>fs = [js ''/x/a''], console = []\<rparr> =
     (None, \<lparr>fs = [js ''/x/c'', js ''/x/a/b'', js ''/x/a''],
             console = [Exists (js ''/x/a''), Created (js ''/x/a/b''), Created (js ''/x/c'')]\<rparr>)"
proof -
  let ?api = "mem_api [js ''/x/a'']"
  let ?w = "\<lparr>fs = [js ''/x/a''], console = []\<rparr>"
  have e: "existsSync ?api (fs ?w) (join ?api (js ''/x'') (js ''a''))"
    by code_simp
  have j: "join ?api (js ''/x'') (js ''a'') = js ''/x/a''"
    by code_simp
  have m: "mkdirSync ?api [js ''/x/a''] (js ''/x/a'') = (Some EACCES, [js ''/x/a''])"
    by code_simp
  have k: "createFolders ?api [Folder (js ''b'') []] (js ''/x/a'')
             \<lparr>fs = [js ''/x/a''], console = [Exists (js ''/x/a'')]\<rparr> =
           (None, \<lparr>fs = [js ''/x/a/b'', js ''/x/a''],
                   console = [Exists (js ''/x/a''), Created (js ''/x/a/b'')]\<rparr>)"
    by code_simp
  have r: "createFolders ?api [Folder (js ''c'') []] (js ''/x'')
             \<lparr>fs = [js ''/x/a/b'', js ''/x/a''],
              console = [Exists (js ''/x/a''), Created (js ''/x/a/b'')]\<rparr> =
           (None, \<lparr>fs = [js ''/x/c'', js ''/x/a/b'', js ''/x/a''],
                   console = [Exists (js ''/x/a''), Created (js ''/x/a/b''), Created (js ''/x/c'')]\<rparr>)"
    by code_simp
  show ?thesis
    using createFolders_existing [OF e, of "[Folder (js ''b'') []]" "[Folder (js ''c'') []]"]
      e m k r unfolding j by simp
qed

text \<open>
  C7. The parser never fails: for every input text, splitting it into lines and building
  the tree returns a forest, and no exception is thrown on the way. When every record
  has depth 0 (for instance when no line starts with four or more white space
  characters), the forest is flat: every non-blank line is a root without children.
\<close>

theorem parser_total:
  "\<exists>forest. buildTree (split_lines inp) = Inr forest \<and>
     (list_all (\<lambda>r. level r = 0) (records (split_lines inp)) \<longrightarrow>
        forest = map (\<lambda>r. Folder (content r) []) (records (split_lines inp)))"
  by (simp add: buildTree_forest_of forest_of_flat)

theorem parser_total_witness:
  "list_all (\<lambda>r. level r = 0) (records (split_lines (js ''  x'' @ [LF, TAB] @ js ''y'' @ [LF, LF]))) \<and>
   (\<exists>forest. buildTree (split_lines (js ''  x'' @ [LF, TAB] @ js ''y'' @ [LF, LF])) = Inr forest \<and>
      forest = [Folder (js ''x'') [], Folder (js ''y'') []])"
proof -
  let ?inp = "js ''  x'' @ [LF, TAB] @ js ''y'' @ [LF, LF]"
  have flat: "list_all (\<lambda>r. level r = 0) (records (split_lines ?inp))" by code_simp
  have m: "map (\<lambda>r. Folder (content r) []) (records (split_lines ?inp)) =
           [Folder (js ''x'') [], Folder (js ''y'') []]"
    by code_simp
  show ?thesis
    using parser_total [of ?inp] flat unfolding m by simp
qed

text \<open>
  C8. A line that is empty or holds white space only is skipped: the iteration of the
  loop leaves the store and the stack as they are, a list of lines with such a line
  inserted anywhere gives the same result as the list without it, and any list of lines
  gives the same result as the list of its non-blank lines.
\<close>

theorem blank_line_skipped:
  assumes "blank b"
  shows "add_line s b = Inr s \<and> buildTree (pre @ b # post) = buildTree (pre @ post) \<and>
         buildTree lines = buildTree (filter (\<lambda>l. \<not> blank l) lines)"
proof -
  have "parseLine b = None" using assms by (simp only: parseLine_None_iff)
  then have "add_line s b = Inr s" by (simp add: add_line_def)
  moreover have "records (pre @ b # post) = records (pre @ post)"
    using assms by (simp add: records_append records_blank)
  moreover have "records (filter (\<lambda>l. \<not> blank l) lines) = records lines"
    by (induction lines) (simp_all add: records_blank records_Cons)
  ultimately show ?thesis by (simp add: buildTree_forest_of)
qed

theorem blank_line_skipped_witness:
  "blank [] \<and> add_line init_state [] = Inr init_state \<and>
   buildTree ([js ''a''] @ [] # [js ''    b'']) = buildTree ([js ''a''] @ [js ''    b'']) \<and>
   filter (\<lambda>l. \<not> blank l) (split_lines (js ''a'' @ [LF, LF] @ js ''    b'' @ [LF])) =
     split_lines (js ''a'' @ [LF] @ js ''    b'') \<and>
   buildTree (split_lines (js ''a'' @ [LF, LF] @ js ''    b'' @ [LF])) =
     buildTree (split_lines (js ''a'' @ [LF] @ js ''    b''))"
proof -
  have b: "blank []" by (simp add: blank_def)
  have s: "filter (\<lambda>l. \<not> blank l) (split_lines (js ''a'' @ [LF, LF] @ js ''    b'' @ [LF])) =
           split_lines (js ''a'' @ [LF] @ js ''    b'')"
    by code_simp
  note th = blank_line_skipped [OF b, of init_state "[js ''a'']" "[js ''    b'']"]
  have "buildTree (split_lines (js ''a'' @ [LF, LF] @ js ''    b'' @ [LF])) =
        buildTree (split_lines (js ''a'' @ [LF] @ js ''    b''))"
    using th [of "split_lines (js ''a'' @ [LF, LF] @ js ''    b'' @ [LF])"] unfolding s by blast
  then show ?thesis
    using th [of "[]"] b s by blast
qed

text \<open>
  C9. The forest returned by \<open>buildTree\<close> has one node for every non-blank line and no
  other node, and its depth-first pre-order lists the trimmed non-blank lines in the
  order of the input.
\<close>

theorem buildTree_preorder:
  "\<exists>forest. buildTree lines = Inr forest \<and>
     preorder forest = map trim (filter (\<lambda>l. \<not> blank l) lines)"
  by (simp add: buildTree_forest_of preorder_forest_of contents_records)

theorem buildTree_preorder_witness:
  "\<exists>forest. buildTree [js ''    a'', [], js ''b'', js ''        c '', [SP, TAB], js ''    d''] = Inr forest \<and>
     preorder forest = [js ''a'', js ''b'', js ''c'', js ''d'']"
proof -
  let ?lines = "[js ''    a'', [], js ''b'', js ''        c '', [SP, TAB], js ''    d'']"
  have m: "map trim (filter (\<lambda>l. \<not> blank l) ?lines) = [js ''a'', js ''b'', js ''c'', js ''d'']"
    by code_simp
  show ?thesis
    using buildTree_preorder [of ?lines] unfolding m by simp
qed

text \<open>
  C10 (amended). Carriage returns at line ends are transparent: for every text in which
  every carriage return is directly followed by a line feed or ends the text, as in a
  text with CRLF line endings and no other carriage return, parsing gives the same
  forest as parsing the text with the carriage returns removed, and no name of a node
  contains a carriage return.
\<close>

theorem cr_at_line_end_transparent:
  assumes "cr_at_line_end inp"
  shows "\<exists>forest. buildTree (split_lines inp) = Inr forest \<and>
           buildTree (split_lines (strip_cr inp)) = Inr forest \<and>
           list_all (\<lambda>n. CR \<notin> set n) (preorder forest)"
proof -
  have "list_all (\<lambda>n. CR \<notin> set n) (map content (records (split_lines (strip_cr inp))))"
    unfolding list_all_iff using names_without_cr by blast
  then show ?thesis
    by (simp add: buildTree_forest_of preorder_forest_of records_strip_cr [OF assms])
qed

theorem cr_at_line_end_transparent_witness:
  "cr_at_line_end (js ''a'' @ [CR, LF] @ js ''    b'' @ [CR, LF]) \<and>
   crlf_endings (js ''a'' @ [CR, LF] @ js ''    b'' @ [CR, LF]) \<and>
   buildTree (split_lines (js ''a'' @ [CR, LF] @ js ''    b'' @ [CR, LF])) =
     Inr [Folder (js ''a'') [Folder (js ''b'') []]] \<and>
   buildTree (split_lines (strip_cr (js ''a'' @ [CR, LF] @ js ''    b'' @ [CR, LF]))) =
     Inr [Folder (js ''a'') [Folder (js ''b'') []]]"
proof -
  let ?inp = "js ''a'' @ [CR, LF] @ js ''    b'' @ [CR, LF]"
  have h: "cr_at_line_end ?inp" by code_simp
  have c: "crlf_endings ?inp" by code_simp
  have b: "buildTree (split_lines ?inp) = Inr [Folder (js ''a'') [Folder (js ''b'') []]]"
    by code_simp
  show ?thesis
    using cr_at_line_end_transparent [OF h] h c b by auto
qed

theorem inner_cr_counterexample:
  "crlf_endings (js ''a'' @ [CR] @ js ''b'' @ [CR, LF]) \<and>
   buildTree (split_lines (js ''a'' @ [CR] @ js ''b'' @ [CR, LF])) =
     Inr [Folder (js ''a'' @ [CR] @ js ''b'') []] \<and>
   buildTree (split_lines (strip_cr (js ''a'' @ [CR] @ js ''b'' @ [CR, LF]))) =
     Inr [Folder (js ''ab'') []]"
  by code_simp

end
